theory Spec2Isabelle
  imports Main "HOL-Library.Sublist" "HOL-Library.Multiset"
begin

section \<open>Python values used by the replay buffer\<close>

text \<open>
  The exceptions the modelled code can raise: an out-of-range list index, a
  modulo by zero, \<open>random.randint\<close> on an empty range, a failed \<open>assert\<close>.
\<close>

datatype py_error = IndexError | ZeroDivisionError | ValueError | AssertionError

text \<open>
  Subscripting a list of length \<open>n\<close> with \<open>i\<close>: the positions are
  \<open>-n .. n - 1\<close>, those below zero standing for \<open>i + n\<close>; any other \<open>i\<close>
  raises IndexError. The same rule serves reading \<open>xs[i]\<close> and the assignment
  \<open>xs[i] = v\<close>.
\<close>

definition py_index :: "nat \<Rightarrow> int \<Rightarrow> py_error + nat" where
  "py_index n i =
     (if int n \<le> i \<or> i < - int n then Inl IndexError
      else Inr (nat (if i < 0 then i + int n else i)))"

definition py_getitem :: "'a list \<Rightarrow> int \<Rightarrow> py_error + 'a" where
  "py_getitem xs i =
     (case py_index (length xs) i of Inl e \<Rightarrow> Inl e | Inr k \<Rightarrow> Inr (xs ! k))"

definition py_setitem :: "'a list \<Rightarrow> int \<Rightarrow> 'a \<Rightarrow> py_error + 'a list" where
  "py_setitem xs i v =
     (case py_index (length xs) i of Inl e \<Rightarrow> Inl e | Inr k \<Rightarrow> Inr (xs[k := v]))"

text \<open>
  Slice bounds as \<open>slice.indices\<close> computes them for step 1: an absent bound is
  the end it stands for, a negative bound is counted from the end and clamped at 0,
  a non-negative one is clamped at the length.
\<close>

definition slice_bound :: "nat \<Rightarrow> int \<Rightarrow> nat" where
  "slice_bound n i = nat (if i < 0 then max (i + int n) 0 else min i (int n))"

definition slice_start :: "nat \<Rightarrow> int option \<Rightarrow> nat" where
  "slice_start n i = (case i of None \<Rightarrow> 0 | Some a \<Rightarrow> slice_bound n a)"

definition slice_stop :: "nat \<Rightarrow> int option \<Rightarrow> nat" where
  "slice_stop n j = (case j of None \<Rightarrow> n | Some b \<Rightarrow> slice_bound n b)"

text \<open>\<open>xs[i:j]\<close>, a fresh list; empty when the stop is not after the start.\<close>

definition py_slice :: "'a list \<Rightarrow> int option \<Rightarrow> int option \<Rightarrow> 'a list" where
  "py_slice xs i j =
     (let lo = slice_start (length xs) i; hi = slice_stop (length xs) j
      in take (hi - lo) (drop lo xs))"

text \<open>\<open>del xs[i:j]\<close>: removes the same positions, nothing when the slice is empty.\<close>

definition py_del_slice :: "'a list \<Rightarrow> int option \<Rightarrow> int option \<Rightarrow> 'a list" where
  "py_del_slice xs i j =
     (let lo = slice_start (length xs) i; hi = slice_stop (length xs) j
      in if lo < hi then take lo xs @ drop hi xs else xs)"

text \<open>
  \<open>a % b\<close> on Python integers: the result has the sign of the divisor, as
  \<open>mod\<close> on \<open>int\<close> has; a zero divisor raises.
\<close>

definition py_mod :: "int \<Rightarrow> int \<Rightarrow> py_error + int" where
  "py_mod a b = (if b = 0 then Inl ZeroDivisionError else Inr (a mod b))"

text \<open>
  \<open>random.randint(lo, hi)\<close>: raises ValueError on an empty range; otherwise it
  returns the value \<open>r\<close> the generator draws, which lies in \<open>lo .. hi\<close>. The drawn
  value is a parameter of the model.
\<close>

definition randint :: "int \<Rightarrow> int \<Rightarrow> int \<Rightarrow> py_error + int" where
  "randint lo hi r = (if hi < lo then Inl ValueError else Inr r)"

text \<open>A list comprehension whose element expression may raise: the first error ends it.\<close>

fun comprehend :: "('b \<Rightarrow> py_error + 'a) \<Rightarrow> 'b list \<Rightarrow> py_error + 'a list" where
  "comprehend f [] = Inr []"
| "comprehend f (x # xs) =
     (case f x of
        Inl e \<Rightarrow> Inl e
      | Inr y \<Rightarrow> (case comprehend f xs of Inl e \<Rightarrow> Inl e | Inr ys \<Rightarrow> Inr (y # ys)))"

section \<open>The class UniformReplay\<close>

text \<open>
  The four attributes \<open>__init__\<close> sets (\<open>_memory\<close>, \<open>_maxsize\<close>,
  \<open>_sampling_start_size\<close>, \<open>_next_idx\<close>). Experiences are opaque, of any type.
\<close>

record 'a UniformReplay =
  memory :: "'a list"
  maxsize :: int
  sampling_start_size :: int
  next_idx :: int

text \<open>
  A method call returns the object as the call leaves it together with what the
  call produced: \<open>Inr\<close> the returned list, \<open>Inl\<close> the exception raised. A raise
  does not undo the assignments made before it.
\<close>

type_synonym 'a outcome = "'a UniformReplay \<times> (py_error + 'a list)"

text \<open>\<open>__init__\<close>: no argument is checked.\<close>

definition init :: "int \<Rightarrow> int \<Rightarrow> 'a UniformReplay" where
  "init memory_size start_size =
     \<lparr>memory = [], maxsize = memory_size, sampling_start_size = start_size, next_idx = 0\<rparr>"

text \<open>
  \<open>_insert\<close>, line 36: the cursor advances modulo \<open>_maxsize\<close> after the list has
  been changed.
\<close>

definition advance :: "'a UniformReplay \<Rightarrow> 'a list \<Rightarrow> 'a outcome" where
  "advance s evicted =
     (case py_mod (next_idx s + 1) (maxsize s) of
        Inl e \<Rightarrow> (s, Inl e)
      | Inr i \<Rightarrow> (s\<lparr>next_idx := i\<rparr>, Inr evicted))"

text \<open>\<open>_insert\<close>: append when the cursor is at or past the end, overwrite otherwise.\<close>

definition insert_exp :: "'a UniformReplay \<Rightarrow> 'a \<Rightarrow> 'a outcome" where
  "insert_exp s exp_dict =
     (if next_idx s \<ge> int (length (memory s)) then
        advance (s\<lparr>memory := memory s @ [exp_dict]\<rparr>) []
      else
        (case py_getitem (memory s) (next_idx s) of
           Inl e \<Rightarrow> (s, Inl e)
         | Inr old \<Rightarrow>
             (case py_setitem (memory s) (next_idx s) exp_dict of
                Inl e \<Rightarrow> (s, Inl e)
              | Inr m \<Rightarrow> advance (s\<lparr>memory := m\<rparr>) [old])))"

text \<open>
  \<open>_sample\<close>: \<open>range(batch_size)\<close> is empty for a non-positive size, so
  \<open>randint\<close> is then never called. \<open>draws k\<close> is the value the \<open>k\<close>-th call of
  \<open>randint\<close> draws. The argument \<open>batch_i\<close> is not used by the method.
\<close>

definition sample :: "'a UniformReplay \<Rightarrow> int \<Rightarrow> (nat \<Rightarrow> int) \<Rightarrow> 'a outcome" where
  "sample s batch_size draws =
     (case comprehend (\<lambda>k. randint 0 (int (length (memory s)) - 1) (draws k))
             [0 ..< nat batch_size] of
        Inl e \<Rightarrow> (s, Inl e)
      | Inr indices \<Rightarrow> (s, comprehend (py_getitem (memory s)) indices))"

text \<open>
  \<open>assert len(evicted) == evict_size\<close>, then \<open>return evicted\<close>. Assertions are
  taken as enabled, which they are unless the interpreter is started with \<open>-O\<close>.
\<close>

definition assert_len :: "'a list \<Rightarrow> int \<Rightarrow> py_error + 'a list" where
  "assert_len evicted evict_size =
     (if int (length evicted) = evict_size then Inr evicted else Inl AssertionError)"

text \<open>
  \<open>_evict\<close>, in the source's order: everything when the size asked for exceeds the
  length; one slice at the cursor when it fits before the end; otherwise the tail
  from the cursor and then a slice from the front, the cursor moved back by the
  length taken from the front.
\<close>

definition evict :: "'a UniformReplay \<Rightarrow> int \<Rightarrow> 'a outcome" where
  "evict s evict_size =
     (if evict_size > int (length (memory s)) then
        (s\<lparr>memory := [], next_idx := 0\<rparr>, Inr (memory s))
      else
        (let forward_space = int (length (memory s)) - next_idx s in
         if evict_size < forward_space then
           (let evicted = py_slice (memory s) (Some (next_idx s)) (Some (next_idx s + evict_size));
                m = py_del_slice (memory s) (Some (next_idx s)) (Some (next_idx s + evict_size))
            in (s\<lparr>memory := m\<rparr>, assert_len evicted evict_size))
         else
           (let evicted0 = py_slice (memory s) (Some (next_idx s)) None;
                evict_from_left = evict_size - forward_space;
                evicted = evicted0 @ py_slice (memory s) None (Some evict_from_left);
                m1 = py_del_slice (memory s) (Some (next_idx s)) None;
                m2 = py_del_slice m1 None (Some evict_from_left)
            in (s\<lparr>memory := m2, next_idx := next_idx s - evict_from_left\<rparr>,
                assert_len evicted evict_size))))"

text \<open>\<open>__len__\<close> and \<open>start_sample_condition\<close>.\<close>

definition len :: "'a UniformReplay \<Rightarrow> int" where
  "len s = int (length (memory s))"

definition start_sample_condition :: "'a UniformReplay \<Rightarrow> bool" where
  "start_sample_condition s \<longleftrightarrow> len s > sampling_start_size s"

section \<open>Histories of calls\<close>

text \<open>
  A reachable object is what a sequence of method calls leaves of a newly
  constructed one. A call that raised is part of the history like any other: the
  caller may catch the exception and go on.
\<close>

datatype 'a call = Insert 'a | Sample int "nat \<Rightarrow> int" | Evict int

fun step :: "'a UniformReplay \<Rightarrow> 'a call \<Rightarrow> 'a UniformReplay" where
  "step s (Insert e) = fst (insert_exp s e)"
| "step s (Sample k draws) = fst (sample s k draws)"
| "step s (Evict n) = fst (evict s n)"

definition run :: "'a UniformReplay \<Rightarrow> 'a call list \<Rightarrow> 'a UniformReplay" where
  "run s calls = foldl step s calls"

text \<open>The experiences a history inserted, in the order of the calls.\<close>

fun inserted :: "'a call list \<Rightarrow> 'a list" where
  "inserted [] = []"
| "inserted (Insert e # cs) = e # inserted cs"
| "inserted (_ # cs) = inserted cs"

fun is_evict :: "'a call \<Rightarrow> bool" where
  "is_evict (Evict _) = True"
| "is_evict _ = False"

text \<open>
  The stored experiences read in ring order: from the cursor to the end, then from
  the front up to the cursor.
\<close>

definition chrono :: "'a UniformReplay \<Rightarrow> 'a list" where
  "chrono s = drop (nat (next_idx s)) (memory s) @ take (nat (next_idx s)) (memory s)"

text \<open>The bounds every reachable object satisfies.\<close>

definition ring_inv :: "'a UniformReplay \<Rightarrow> bool" where
  "ring_inv s \<longleftrightarrow>
     0 \<le> next_idx s \<and> next_idx s \<le> int (length (memory s)) \<and>
     int (length (memory s)) \<le> maxsize s \<and> next_idx s < maxsize s"

section \<open>What each method does on an object within the bounds\<close>

lemma inv_init: "0 < cap \<Longrightarrow> ring_inv (init cap sss)"
  by (simp add: ring_inv_def init_def)

lemma insert_append:
  assumes "ring_inv s" "next_idx s = int (length (memory s))"
  shows "insert_exp s e =
    (s\<lparr>memory := memory s @ [e], next_idx := (next_idx s + 1) mod maxsize s\<rparr>, Inr [])"
  using assms by (simp add: insert_exp_def advance_def py_mod_def ring_inv_def)

lemma insert_overwrite:
  assumes "ring_inv s" "next_idx s < int (length (memory s))"
  shows "insert_exp s e =
    (s\<lparr>memory := (memory s)[nat (next_idx s) := e], next_idx := (next_idx s + 1) mod maxsize s\<rparr>,
     Inr [memory s ! nat (next_idx s)])"
  using assms
  by (simp add: insert_exp_def advance_def py_mod_def ring_inv_def py_getitem_def
      py_setitem_def py_index_def)

lemma evict_all:
  assumes "int (length (memory s)) < n"
  shows "evict s n = (s\<lparr>memory := [], next_idx := 0\<rparr>, Inr (memory s))"
  using assms by (simp add: evict_def)

lemma evict_forward:
  assumes "ring_inv s" "0 \<le> n" "n < int (length (memory s)) - next_idx s"
  shows "evict s n =
    (s\<lparr>memory := take (nat (next_idx s)) (memory s) @ drop (nat (next_idx s) + nat n) (memory s)\<rparr>,
     Inr (take (nat n) (drop (nat (next_idx s)) (memory s))))"
  using assms
  by (auto simp add: evict_def Let_def py_slice_def py_del_slice_def slice_start_def slice_stop_def
      slice_bound_def ring_inv_def assert_len_def nat_add_distrib min_def)

lemma evict_wrap:
  assumes "ring_inv s" "n \<le> int (length (memory s))" "int (length (memory s)) - next_idx s \<le> n"
  shows "evict s n =
    (s\<lparr>memory := drop (nat (n - (int (length (memory s)) - next_idx s))) (take (nat (next_idx s)) (memory s)),
       next_idx := next_idx s - (n - (int (length (memory s)) - next_idx s))\<rparr>,
     Inr (drop (nat (next_idx s)) (memory s) @ take (nat (n - (int (length (memory s)) - next_idx s))) (memory s)))"
  using assms
  by (auto simp add: evict_def Let_def py_slice_def py_del_slice_def slice_start_def slice_stop_def
      slice_bound_def ring_inv_def assert_len_def nat_add_distrib min_def)

lemma evict_negative:
  assumes "ring_inv s" "n < 0"
  shows "evict s n =
    (s\<lparr>memory :=
        (if next_idx s + n < 0 \<and> 0 < int (length (memory s)) + n
         then take (nat (next_idx s)) (memory s) @
              drop (nat (int (length (memory s)) + next_idx s + n)) (memory s)
         else memory s)\<rparr>,
     Inl AssertionError)"
proof -
  let ?m = "memory s" and ?i = "next_idx s"
  have b: "0 \<le> ?i" "?i \<le> int (length ?m)" using assms(1) by (simp_all add: ring_inv_def)
  have lo: "slice_start (length ?m) (Some ?i) = nat ?i"
    using b by (simp add: slice_start_def slice_bound_def)
  have hi: "slice_stop (length ?m) (Some (?i + n)) =
      (if ?i + n < 0 then nat (int (length ?m) + ?i + n) else nat (?i + n))"
    using b assms(2) by (auto simp add: slice_stop_def slice_bound_def max_def min_def algebra_simps)
  have del: "py_del_slice ?m (Some ?i) (Some (?i + n)) =
      (if ?i + n < 0 \<and> 0 < int (length ?m) + n
       then take (nat ?i) ?m @ drop (nat (int (length ?m) + ?i + n)) ?m else ?m)"
    unfolding py_del_slice_def Let_def lo hi using b assms(2) by auto
  have "int (length (py_slice ?m (Some ?i) (Some (?i + n)))) \<noteq> n"
    using assms(2) by simp
  then have as: "assert_len (py_slice ?m (Some ?i) (Some (?i + n))) n = Inl AssertionError"
    by (simp add: assert_len_def)
  have br: "\<not> int (length ?m) < n" "n < int (length ?m) - ?i"
    using b assms(2) by simp_all
  show ?thesis
    unfolding evict_def Let_def using br by (simp only: if_False if_True del as)
qed

lemma ring_inv_insert: "ring_inv s \<Longrightarrow> ring_inv (fst (insert_exp s e))"
proof -
  assume i: "ring_inv s"
  show ?thesis
  proof (cases "next_idx s < int (length (memory s))")
    case True
    have "(next_idx s + 1) mod maxsize s \<le> next_idx s + 1"
      using i by (simp add: ring_inv_def zmod_le_nonneg_dividend)
    then show ?thesis using i True
      by (simp add: insert_overwrite ring_inv_def)
  next
    case False
    then have eq: "next_idx s = int (length (memory s))" using i by (simp add: ring_inv_def)
    have "(next_idx s + 1) mod maxsize s \<le> next_idx s + 1"
      using i by (simp add: ring_inv_def zmod_le_nonneg_dividend)
    then show ?thesis using i eq
      by (simp add: insert_append ring_inv_def)
  qed
qed

lemma ring_inv_evict: "ring_inv s \<Longrightarrow> ring_inv (fst (evict s n))"
proof -
  assume i: "ring_inv s"
  consider "n < 0" | "int (length (memory s)) < n"
    | "0 \<le> n" "n < int (length (memory s)) - next_idx s"
    | "n \<le> int (length (memory s))" "int (length (memory s)) - next_idx s \<le> n"
    by linarith
  then show ?thesis
  proof cases
    case 1 then show ?thesis using i by (auto simp add: evict_negative ring_inv_def)
  next
    case 2 then show ?thesis using i by (simp add: evict_all ring_inv_def)
  next
    case 3 then show ?thesis using i by (auto simp add: evict_forward ring_inv_def)
  next
    case 4 then show ?thesis using i by (auto simp add: evict_wrap ring_inv_def)
  qed
qed

lemma sample_state: "fst (sample s k draws) = s"
  by (simp add: sample_def split: sum.splits)

lemma ring_inv_step: "ring_inv s \<Longrightarrow> ring_inv (step s c)"
  by (cases c) (simp_all add: ring_inv_insert ring_inv_evict sample_state)

lemma maxsize_insert: "maxsize (fst (insert_exp s e)) = maxsize s"
  by (simp add: insert_exp_def advance_def split: sum.splits)

lemma maxsize_evict: "maxsize (fst (evict s n)) = maxsize s"
  by (simp add: evict_def Let_def)

lemma maxsize_step: "maxsize (step s c) = maxsize s"
  by (cases c) (simp_all add: maxsize_insert maxsize_evict sample_state)

lemma run_snoc: "run s (cs @ [c]) = step (run s cs) c"
  by (simp add: run_def)

lemma ring_inv_run: "ring_inv s \<Longrightarrow> ring_inv (run s cs)"
  by (induction cs rule: rev_induct) (simp_all add: run_snoc ring_inv_step, simp add: run_def)

lemma maxsize_run: "maxsize (run s cs) = maxsize s"
  by (induction cs rule: rev_induct) (simp_all add: run_snoc maxsize_step, simp add: run_def)

lemma reachable_inv: "0 < cap \<Longrightarrow> ring_inv (run (init cap sss) cs)"
  by (simp add: ring_inv_run inv_init)

lemma reachable_maxsize: "maxsize (run (init cap sss) cs) = cap"
  by (simp add: maxsize_run init_def)

section \<open>The bounds of every reachable buffer\<close>

text \<open>
  C10. Starting from a newly constructed buffer of positive capacity, every sequence
  of insert, sample and evict calls leaves \<open>0 \<le> cursor \<le> len(slots) \<le> capacity\<close> and
  \<open>cursor < capacity\<close>; the capacity itself never changes; and the next insert
  returns without raising, having either appended its record at the end or
  overwritten the slot at the cursor, which exists. The evict counts of the history
  need not even be non-negative.
\<close>

theorem C10_bounds_preserved:
  assumes "0 < cap" and "s = run (init cap sss) calls"
  shows "0 \<le> next_idx s \<and> next_idx s \<le> int (length (memory s)) \<and>
         int (length (memory s)) \<le> cap \<and> next_idx s < cap \<and> maxsize s = cap \<and>
         (\<exists>s' ev. insert_exp s e = (s', Inr ev) \<and>
            (memory s' = memory s @ [e] \<or>
             (nat (next_idx s) < length (memory s) \<and>
              memory s' = (memory s)[nat (next_idx s) := e])))"
proof -
  have i: "ring_inv s" using assms by (simp add: reachable_inv)
  have m: "maxsize s = cap" using assms by (simp add: reachable_maxsize)
  have ins: "\<exists>s' ev. insert_exp s e = (s', Inr ev) \<and>
            (memory s' = memory s @ [e] \<or>
             (nat (next_idx s) < length (memory s) \<and>
              memory s' = (memory s)[nat (next_idx s) := e]))"
  proof (cases "next_idx s < int (length (memory s))")
    case True
    then have "nat (next_idx s) < length (memory s)" using i unfolding ring_inv_def by linarith
    then show ?thesis using insert_overwrite[OF i True, of e] by simp
  next
    case False
    then have "next_idx s = int (length (memory s))" using i by (simp add: ring_inv_def)
    then show ?thesis using insert_append[OF i, of e] by simp
  qed
  show ?thesis using i m ins unfolding ring_inv_def by simp
qed

theorem C10_bounds_preserved_witness:
  "0 \<le> next_idx (run (init 3 0) [Insert (1::nat), Insert 2, Insert 3, Evict 2, Insert 4,
         Sample 2 (\<lambda>k. 0), Insert 5]) \<and>
   next_idx (run (init 3 0) [Insert (1::nat), Insert 2, Insert 3, Evict 2, Insert 4,
         Sample 2 (\<lambda>k. 0), Insert 5]) < 3"
  using C10_bounds_preserved[of 3 "run (init 3 0) [Insert (1::nat), Insert 2, Insert 3, Evict 2,
         Insert 4, Sample 2 (\<lambda>k. 0), Insert 5]" 0 "[Insert (1::nat), Insert 2, Insert 3, Evict 2,
         Insert 4, Sample 2 (\<lambda>k. 0), Insert 5]" 6]
  by simp

section \<open>Evicting\<close>

lemmas exec_defs =
  run_def init_def insert_exp_def advance_def py_mod_def py_getitem_def py_setitem_def
  py_index_def evict_def Let_def py_slice_def py_del_slice_def slice_start_def slice_stop_def
  slice_bound_def assert_len_def sample_def randint_def chrono_def

lemma evict_count:
  assumes "ring_inv s" "0 \<le> n"
  shows "\<exists>s' ev. evict s n = (s', Inr ev) \<and>
           int (length ev) = min n (int (length (memory s))) \<and>
           int (length (memory s')) = int (length (memory s)) - min n (int (length (memory s)))"
proof -
  have b: "0 \<le> next_idx s" "next_idx s \<le> int (length (memory s))"
    using assms(1) by (simp_all add: ring_inv_def)
  consider "int (length (memory s)) < n"
    | "n < int (length (memory s)) - next_idx s"
    | "n \<le> int (length (memory s))" "int (length (memory s)) - next_idx s \<le> n"
    by linarith
  then show ?thesis
  proof cases
    case 1
    then show ?thesis by (simp add: evict_all)
  next
    case 2
    then show ?thesis using b assms(2) evict_forward[OF assms(1) assms(2) 2] by auto
  next
    case 3
    then show ?thesis using b assms(2) evict_wrap[OF assms(1) 3] by auto
  qed
qed

text \<open>State of a buffer of capacity 4 after six inserts, used below.\<close>

lemma six_inserts:
  "run (init 4 0) [Insert (1::int), Insert 2, Insert 3, Insert 4, Insert 5, Insert 6] =
     \<lparr>memory = [5, 6, 3, 4], maxsize = 4, sampling_start_size = 0, next_idx = 2\<rparr>"
  by (simp add: exec_defs)

text \<open>
  C6. On a reachable buffer and for \<open>0 \<le> count < len(slots)\<close>: when
  \<open>count < len(slots) - cursor\<close>, evict removes and returns exactly
  \<open>slots[cursor : cursor + count]\<close> and leaves the cursor alone; otherwise it removes
  and returns \<open>slots[cursor:]\<close> followed by \<open>slots[:extra]\<close>, where
  \<open>extra = count - (len(slots) - cursor)\<close>, and lowers the cursor by \<open>extra\<close>.
\<close>

theorem C6_evict_partial:
  assumes "0 < cap" and "s = run (init cap sss) calls"
    and "0 \<le> n" and "n < int (length (memory s))"
  shows "(n < int (length (memory s)) - next_idx s \<longrightarrow>
            evict s n =
              (s\<lparr>memory := take (nat (next_idx s)) (memory s) @
                            drop (nat (next_idx s) + nat n) (memory s)\<rparr>,
               Inr (take (nat n) (drop (nat (next_idx s)) (memory s))))) \<and>
         (\<not> n < int (length (memory s)) - next_idx s \<longrightarrow>
            evict s n =
              (s\<lparr>memory := drop (nat (n - (int (length (memory s)) - next_idx s)))
                              (take (nat (next_idx s)) (memory s)),
                 next_idx := next_idx s - (n - (int (length (memory s)) - next_idx s))\<rparr>,
               Inr (drop (nat (next_idx s)) (memory s) @
                    take (nat (n - (int (length (memory s)) - next_idx s))) (memory s))))"
proof -
  have i: "ring_inv s" using assms(1,2) by (simp add: reachable_inv)
  show ?thesis
  proof (intro conjI impI)
    assume "n < int (length (memory s)) - next_idx s"
    then show "evict s n =
              (s\<lparr>memory := take (nat (next_idx s)) (memory s) @
                            drop (nat (next_idx s) + nat n) (memory s)\<rparr>,
               Inr (take (nat n) (drop (nat (next_idx s)) (memory s))))"
      using evict_forward[OF i assms(3)] by simp
  next
    assume "\<not> n < int (length (memory s)) - next_idx s"
    then have "int (length (memory s)) - next_idx s \<le> n" by simp
    moreover have "n \<le> int (length (memory s))" using assms(4) by simp
    ultimately show "evict s n =
              (s\<lparr>memory := drop (nat (n - (int (length (memory s)) - next_idx s)))
                              (take (nat (next_idx s)) (memory s)),
                 next_idx := next_idx s - (n - (int (length (memory s)) - next_idx s))\<rparr>,
               Inr (drop (nat (next_idx s)) (memory s) @
                    take (nat (n - (int (length (memory s)) - next_idx s))) (memory s)))"
      using evict_wrap[OF i] by simp
  qed
qed

theorem C6_evict_partial_witness:
  "evict (run (init 4 0) [Insert (1::int), Insert 2, Insert 3, Insert 4, Insert 5, Insert 6]) 3 =
     (\<lparr>memory = [6], maxsize = 4, sampling_start_size = 0, next_idx = 1\<rparr>, Inr [3, 4, 5])"
  using C6_evict_partial[of 4 "run (init 4 0) [Insert (1::int), Insert 2, Insert 3, Insert 4,
      Insert 5, Insert 6]" 0 "[Insert (1::int), Insert 2, Insert 3, Insert 4, Insert 5, Insert 6]" 3]
  by (simp add: six_inserts)

text \<open>
  C7. On a reachable buffer and for \<open>0 \<le> n \<le> len(slots)\<close>, evict returns
  normally: its assertion holds, the returned list has exactly \<open>n\<close> elements and
  the buffer has exactly \<open>n\<close> fewer.
\<close>

theorem C7_evict_assertion_holds:
  assumes "0 < cap" and "s = run (init cap sss) calls"
    and "0 \<le> n" and "n \<le> int (length (memory s))"
  shows "\<exists>s' ev. evict s n = (s', Inr ev) \<and> int (length ev) = n \<and>
           int (length (memory s')) = int (length (memory s)) - n"
proof -
  have i: "ring_inv s" using assms(1,2) by (simp add: reachable_inv)
  show ?thesis using evict_count[OF i assms(3)] assms(4) by (simp add: min_def)
qed

theorem C7_evict_assertion_holds_witness:
  "\<exists>s' ev. evict (run (init 4 0) [Insert (1::int), Insert 2, Insert 3, Insert 4, Insert 5,
       Insert 6]) 4 = (s', Inr ev) \<and> int (length ev) = 4 \<and> int (length (memory s')) = 0"
  using C7_evict_assertion_holds[of 4 "run (init 4 0) [Insert (1::int), Insert 2, Insert 3,
      Insert 4, Insert 5, Insert 6]" 0 "[Insert (1::int), Insert 2, Insert 3, Insert 4, Insert 5,
      Insert 6]" 4]
  by (simp add: six_inserts)

lemma evict_count_inv:
  assumes "ring_inv s" "0 \<le> n"
  shows "\<exists>s' ev. evict s n = (s', Inr ev) \<and> ring_inv s' \<and>
           int (length ev) = min n (int (length (memory s))) \<and>
           int (length (memory s')) = int (length (memory s)) - min n (int (length (memory s)))"
proof -
  obtain s' ev where e: "evict s n = (s', Inr ev)"
    "int (length ev) = min n (int (length (memory s)))"
    "int (length (memory s')) = int (length (memory s)) - min n (int (length (memory s)))"
    using evict_count[OF assms] by blast
  have "ring_inv (fst (evict s n))" using assms(1) by (rule ring_inv_evict)
  then have "ring_inv s'" using e(1) by simp
  then show ?thesis using e by blast
qed

text \<open>
  C8. On a reachable buffer of size \<open>s\<close> and for \<open>a, b \<ge> 0\<close>, \<open>evict(a)\<close> followed
  by \<open>evict(b)\<close> and the single call \<open>evict(min(a + b, s))\<close> all return normally, the
  two calls together return as many records as the single one, and both ways leave
  a buffer of the same size.
\<close>

theorem C8_evict_twice:
  assumes "0 < cap" and "s = run (init cap sss) calls" and "0 \<le> a" and "0 \<le> b"
  shows "\<exists>s1 ev1 s2 ev2 s3 ev3.
           evict s a = (s1, Inr ev1) \<and> evict s1 b = (s2, Inr ev2) \<and>
           evict s (min (a + b) (int (length (memory s)))) = (s3, Inr ev3) \<and>
           length ev1 + length ev2 = length ev3 \<and>
           length (memory s2) = length (memory s3)"
proof -
  have i: "ring_inv s" using assms(1,2) by (simp add: reachable_inv)
  obtain s1 ev1 where e1: "evict s a = (s1, Inr ev1)" "ring_inv s1"
    "int (length ev1) = min a (int (length (memory s)))"
    "int (length (memory s1)) = int (length (memory s)) - min a (int (length (memory s)))"
    using evict_count_inv[OF i assms(3)] by blast
  obtain s2 ev2 where e2: "evict s1 b = (s2, Inr ev2)"
    "int (length ev2) = min b (int (length (memory s1)))"
    "int (length (memory s2)) = int (length (memory s1)) - min b (int (length (memory s1)))"
    using evict_count[OF e1(2) assms(4)] by blast
  have nn: "0 \<le> min (a + b) (int (length (memory s)))" using assms(3,4) by simp
  obtain s3 ev3 where e3: "evict s (min (a + b) (int (length (memory s)))) = (s3, Inr ev3)"
    "int (length ev3) = min (min (a + b) (int (length (memory s)))) (int (length (memory s)))"
    "int (length (memory s3)) =
       int (length (memory s)) - min (min (a + b) (int (length (memory s)))) (int (length (memory s)))"
    using evict_count[OF i nn] by blast
  have "int (length ev1 + length ev2) = int (length ev3)"
    using e1(3,4) e2(2) e3(2) assms(3,4) by (simp add: min_def)
  then have c: "length ev1 + length ev2 = length ev3" by (simp only: int_int_eq)
  have "int (length (memory s2)) = int (length (memory s3))"
    using e1(4) e2(3) e3(3) assms(3,4) by (simp add: min_def)
  then have m: "length (memory s2) = length (memory s3)" by (simp only: int_int_eq)
  show ?thesis using e1(1) e2(1) e3(1) c m by blast
qed

theorem C8_evict_twice_witness:
  "\<exists>s1 ev1 s2 ev2 s3 ev3.
     evict (run (init 4 0) [Insert (1::int), Insert 2, Insert 3, Insert 4, Insert 5, Insert 6]) 1
       = (s1, Inr ev1) \<and>
     evict s1 2 = (s2, Inr ev2) \<and>
     evict (run (init 4 0) [Insert (1::int), Insert 2, Insert 3, Insert 4, Insert 5, Insert 6]) 3
       = (s3, Inr ev3) \<and>
     length ev1 + length ev2 = length ev3 \<and> length (memory s2) = length (memory s3)"
  using C8_evict_twice[of 4 "run (init 4 0) [Insert (1::int), Insert 2, Insert 3, Insert 4,
      Insert 5, Insert 6]" 0 "[Insert (1::int), Insert 2, Insert 3, Insert 4, Insert 5, Insert 6]"
      1 2]
  by (simp add: six_inserts)

section \<open>Evicting everything, and evicting a negative count\<close>

lemma four_inserts:
  "run (init 3 0) [Insert (1::int), Insert 2, Insert 3, Insert 4] =
     \<lparr>memory = [4, 2, 3], maxsize = 3, sampling_start_size = 0, next_idx = 1\<rparr>"
  by (simp add: exec_defs)

lemma three_inserts:
  "run (init 3 0) [Insert (1::int), Insert 2, Insert 3] =
     \<lparr>memory = [1, 2, 3], maxsize = 3, sampling_start_size = 0, next_idx = 0\<rparr>"
  by (simp add: exec_defs)

text \<open>
  C3, as stated, fails. Capacity 3, inserts 1, 2, 3, 4: the buffer holds
  \<open>[4, 2, 3]\<close> with the cursor at 1, so its contents oldest first are \<open>[2, 3, 4]\<close>.
  \<open>evict(3)\<close> returns them in that order, \<open>evict(4)\<close> returns \<open>[4, 2, 3]\<close>.
\<close>

theorem C3_counterexample:
  "chrono (run (init 3 0) [Insert (1::int), Insert 2, Insert 3, Insert 4]) = [2, 3, 4] \<and>
   snd (evict (run (init 3 0) [Insert (1::int), Insert 2, Insert 3, Insert 4]) 3) = Inr [2, 3, 4] \<and>
   snd (evict (run (init 3 0) [Insert (1::int), Insert 2, Insert 3, Insert 4]) 4) = Inr [4, 2, 3]"
  by (simp add: four_inserts) (simp add: exec_defs)

text \<open>
  C3, amended. On a reachable buffer and for \<open>count \<ge> len(slots)\<close>, evict returns
  normally, leaves the buffer empty with the cursor at 0, and returns everything the
  buffer held: in ring order (from the cursor to the end, then from the front to the
  cursor, which is oldest first) when \<open>count = len(slots)\<close>, and in the order of the
  underlying list when \<open>count > len(slots)\<close>. The two orders list the same records.
\<close>

theorem C3_evict_everything:
  assumes "0 < cap" and "s = run (init cap sss) calls" and "int (length (memory s)) \<le> n"
  shows "evict s n =
           (s\<lparr>memory := [], next_idx := 0\<rparr>,
            Inr (if n = int (length (memory s)) then chrono s else memory s)) \<and>
         mset (chrono s) = mset (memory s)"
proof -
  have i: "ring_inv s" using assms(1,2) by (simp add: reachable_inv)
  have b: "0 \<le> next_idx s" "next_idx s \<le> int (length (memory s))"
    using i by (simp_all add: ring_inv_def)
  have ms: "mset (chrono s) = mset (memory s)"
    unfolding chrono_def by (metis append_take_drop_id mset_append union_commute)
  show ?thesis
  proof (cases "n = int (length (memory s))")
    case True
    have "evict s n = (s\<lparr>memory := [], next_idx := 0\<rparr>, Inr (chrono s))"
      using evict_wrap[OF i, of n] True b by (simp add: chrono_def)
    then show ?thesis using True ms by simp
  next
    case False
    then have "int (length (memory s)) < n" using assms(3) by simp
    then show ?thesis using False ms by (simp add: evict_all)
  qed
qed

theorem C3_evict_everything_witness:
  "evict (run (init 3 0) [Insert (1::int), Insert 2, Insert 3, Insert 4]) 3 =
     (\<lparr>memory = [], maxsize = 3, sampling_start_size = 0, next_idx = 0\<rparr>, Inr [2, 3, 4])"
  using C3_evict_everything[of 3 "run (init 3 0) [Insert (1::int), Insert 2, Insert 3, Insert 4]"
      0 "[Insert (1::int), Insert 2, Insert 3, Insert 4]" 3]
  by (simp add: four_inserts chrono_def)

text \<open>
  C4. The claim: evict with a negative count is rejected at once with an error and
  changes nothing. The code does not do so. Only a count that is too large is
  guarded (line 45); a negative one reaches the forward branch, whose deletion runs
  before the assertion of line 61 is tested. Capacity 3, inserts 1, 2, 3, then
  \<open>evict(-1)\<close>: the slice \<open>[0:-1]\<close> is deleted, the buffer is left holding
  \<open>[3]\<close>, and only then does the assertion fail.
\<close>

theorem C4_failing_input:
  "run (init 3 0) [Insert (1::int), Insert 2, Insert 3] =
     \<lparr>memory = [1, 2, 3], maxsize = 3, sampling_start_size = 0, next_idx = 0\<rparr> \<and>
   evict (run (init 3 0) [Insert (1::int), Insert 2, Insert 3]) (- 1) =
     (\<lparr>memory = [3], maxsize = 3, sampling_start_size = 0, next_idx = 0\<rparr>, Inl AssertionError)"
  by (simp add: three_inserts) (simp add: exec_defs)

section \<open>Sampling\<close>

lemma comprehend_all_ok:
  "(\<And>x. x \<in> set xs \<Longrightarrow> f x = Inr (g x)) \<Longrightarrow> comprehend f xs = Inr (map g xs)"
  by (induction xs) simp_all

lemma sample_nonpositive: "k \<le> 0 \<Longrightarrow> sample s k draws = (s, Inr [])"
  by (simp add: sample_def)

lemma sample_empty:
  assumes "memory s = []" "0 < k"
  shows "sample s k draws = (s, Inl ValueError)"
proof -
  have "[0 ..< nat k] = 0 # [1 ..< nat k]" using assms(2) by (simp add: upt_conv_Cons)
  then show ?thesis using assms(1) by (simp add: sample_def randint_def)
qed

lemma sample_in_range:
  assumes "memory s \<noteq> []"
    and "\<And>i. i < nat k \<Longrightarrow> 0 \<le> draws i \<and> draws i < int (length (memory s))"
  shows "sample s k draws = (s, Inr (map (\<lambda>i. memory s ! nat (draws i)) [0 ..< nat k]))"
proof -
  have a: "comprehend (\<lambda>i. randint 0 (int (length (memory s)) - 1) (draws i)) [0 ..< nat k] =
      Inr (map draws [0 ..< nat k])"
    using assms(1) by (intro comprehend_all_ok) (simp add: randint_def)
  have b: "comprehend (py_getitem (memory s)) (map draws [0 ..< nat k]) =
      Inr (map (\<lambda>d. memory s ! nat d) (map draws [0 ..< nat k]))"
  proof (rule comprehend_all_ok)
    fix d assume "d \<in> set (map draws [0 ..< nat k])"
    then obtain i where "i < nat k" "d = draws i" by auto
    then have "0 \<le> d" "d < int (length (memory s))" using assms(2) by auto
    then show "py_getitem (memory s) d = Inr (memory s ! nat d)"
      by (simp add: py_getitem_def py_index_def)
  qed
  show ?thesis by (simp add: sample_def a b comp_def)
qed

text \<open>
  C5, as stated, fails. A batch size of 0 is not rejected, on a buffer holding one
  record or on an empty one: the comprehension runs over an empty range and the
  call returns the empty list.
\<close>

theorem C5_counterexample:
  "snd (sample (run (init 3 0) [Insert (1::int)]) 0 (\<lambda>i. 0)) = Inr [] \<and>
   snd (sample (init 3 0 :: int UniformReplay) 0 (\<lambda>i. 0)) = Inr []"
  by (simp add: sample_nonpositive)

text \<open>
  C5, amended. With draws that lie in the range \<open>randint\<close> is asked for, sample
  fails if and only if the buffer is empty and the batch size is positive; the error
  is then the ValueError of \<open>randint\<close>. A non-positive batch size is accepted and
  gives the empty list. This holds of every buffer, reachable or not.
\<close>

theorem C5_sample_fails_iff:
  assumes "\<And>i. memory s \<noteq> [] \<Longrightarrow> i < nat k \<Longrightarrow>
             0 \<le> draws i \<and> draws i < int (length (memory s))"
  shows "((\<exists>e. snd (sample s k draws) = Inl e) \<longleftrightarrow> memory s = [] \<and> 0 < k) \<and>
         (memory s = [] \<and> 0 < k \<longrightarrow> snd (sample s k draws) = Inl ValueError) \<and>
         (k \<le> 0 \<longrightarrow> snd (sample s k draws) = Inr [])"
proof (cases "memory s = [] \<and> 0 < k")
  case True
  then show ?thesis by (simp add: sample_empty)
next
  case False
  show ?thesis
  proof (cases "k \<le> 0")
    case True
    then show ?thesis by (auto simp add: sample_nonpositive)
  next
    case pos: False
    then have ne: "memory s \<noteq> []" using False by simp
    have "sample s k draws = (s, Inr (map (\<lambda>i. memory s ! nat (draws i)) [0 ..< nat k]))"
      using assms[OF ne] by (intro sample_in_range[OF ne]) simp
    then show ?thesis using ne pos by simp
  qed
qed

lemma two_inserts:
  "run (init 3 0) [Insert (1::int), Insert 2] =
     \<lparr>memory = [1, 2], maxsize = 3, sampling_start_size = 0, next_idx = 2\<rparr>"
  by (simp add: exec_defs)

theorem C5_sample_fails_iff_witness:
  "(\<exists>e. snd (sample (run (init 3 0) [Insert (1::int), Insert 2]) 3 (\<lambda>i. int i mod 2)) = Inl e)
     = False"
  using C5_sample_fails_iff[of "run (init 3 0) [Insert (1::int), Insert 2]" 3 "\<lambda>i. int i mod 2"]
  by (simp add: two_inserts)

text \<open>
  C9. On a reachable buffer holding at least one record, for a positive \<open>k\<close> and
  draws within \<open>0 .. len(slots) - 1\<close>, \<open>sample(k)\<close> returns normally the \<open>k\<close>
  records at the drawn positions, in draw order; each of them is a stored record;
  the buffer is left as it was.
\<close>

theorem C9_sample_batch:
  assumes "0 < cap" and "s = run (init cap sss) calls"
    and "1 \<le> length (memory s)" and "0 < k"
    and "\<And>i. i < nat k \<Longrightarrow> 0 \<le> draws i \<and> draws i < int (length (memory s))"
  shows "\<exists>batch. sample s k draws = (s, Inr batch) \<and> int (length batch) = k \<and>
           set batch \<subseteq> set (memory s) \<and>
           batch = map (\<lambda>i. memory s ! nat (draws i)) [0 ..< nat k]"
proof -
  have ne: "memory s \<noteq> []" using assms(3) by auto
  have eq: "sample s k draws = (s, Inr (map (\<lambda>i. memory s ! nat (draws i)) [0 ..< nat k]))"
    using ne assms(5) by (rule sample_in_range)
  have len: "int (length (map (\<lambda>i. memory s ! nat (draws i)) [0 ..< nat k])) = k"
    using assms(4) by simp
  have sub: "set (map (\<lambda>i. memory s ! nat (draws i)) [0 ..< nat k]) \<subseteq> set (memory s)"
  proof
    fix x assume "x \<in> set (map (\<lambda>i. memory s ! nat (draws i)) [0 ..< nat k])"
    then obtain i where i: "i < nat k" "x = memory s ! nat (draws i)" by auto
    then have "nat (draws i) < length (memory s)" using assms(5)[of i] by linarith
    then show "x \<in> set (memory s)" using i(2) by simp
  qed
  show ?thesis using eq len sub by blast
qed

theorem C9_sample_batch_witness:
  "sample (run (init 3 0) [Insert (1::int), Insert 2]) 3 (\<lambda>i. int i mod 2) =
     (run (init 3 0) [Insert (1::int), Insert 2], Inr [1, 2, 1])"
proof -
  have "\<exists>batch. sample (run (init 3 0) [Insert (1::int), Insert 2]) 3 (\<lambda>i. int i mod 2) =
           (run (init 3 0) [Insert (1::int), Insert 2], Inr batch) \<and> int (length batch) = 3 \<and>
           set batch \<subseteq> set (memory (run (init 3 0) [Insert (1::int), Insert 2])) \<and>
           batch = map (\<lambda>i. memory (run (init 3 0) [Insert (1::int), Insert 2]) !
                     nat (int i mod 2)) [0 ..< nat 3]"
    by (rule C9_sample_batch[of 3 _ 0 "[Insert (1::int), Insert 2]"])
       (simp_all add: two_inserts)
  then show ?thesis by (simp add: two_inserts upt_conv_Cons numeral_3_eq_3)
qed

section \<open>Ring order is insertion order\<close>

lemma chrono_insert:
  assumes "ring_inv s"
  shows "chrono (fst (insert_exp s e)) =
           (if next_idx s < int (length (memory s)) then tl (chrono s) else chrono s) @ [e]"
proof (cases "next_idx s < int (length (memory s))")
  case True
  let ?i = "nat (next_idx s)" and ?m = "memory s"
  have b: "0 \<le> next_idx s" "int (length ?m) \<le> maxsize s" using assms by (simp_all add: ring_inv_def)
  have il: "?i < length ?m" using True b by linarith
  have ch: "chrono s = (?m ! ?i) # drop (Suc ?i) ?m @ take ?i ?m"
    unfolding chrono_def using il by (simp add: Cons_nth_drop_Suc)
  have upd: "?m[?i := e] = take ?i ?m @ e # drop (Suc ?i) ?m"
    using il by (rule upd_conv_take_nth_drop)
  show ?thesis
  proof (cases "next_idx s + 1 < maxsize s")
    case lt: True
    then have md: "(next_idx s + 1) mod maxsize s = next_idx s + 1" using b by simp
    have n1: "nat (next_idx s + 1) = Suc ?i" using b by simp
    have "chrono (fst (insert_exp s e)) = drop (Suc ?i) (?m[?i := e]) @ take (Suc ?i) (?m[?i := e])"
      using True by (simp add: insert_overwrite[OF assms True] md chrono_def n1)
    also have "\<dots> = drop (Suc ?i) ?m @ take ?i ?m @ [e]"
      using il by (simp add: upd min_def take_Suc_conv_app_nth)
    finally show ?thesis using True ch by simp
  next
    case ge: False
    then have full: "int (length ?m) = next_idx s + 1" "maxsize s = next_idx s + 1"
      using True b by simp_all
    then have md: "(next_idx s + 1) mod maxsize s = 0" by simp
    have sl: "length ?m = Suc ?i" using full(1) b by linarith
    have "chrono (fst (insert_exp s e)) = ?m[?i := e]"
      by (simp add: insert_overwrite[OF assms True] md chrono_def)
    also have "\<dots> = take ?i ?m @ [e]" using sl by (simp add: upd)
    finally show ?thesis using True ch sl by simp
  qed
next
  case False
  then have eq: "next_idx s = int (length (memory s))" using assms by (simp add: ring_inv_def)
  have b: "int (length (memory s)) < maxsize s" using assms eq by (simp add: ring_inv_def)
  have ch: "chrono s = memory s" by (simp add: chrono_def eq)
  show ?thesis
  proof (cases "int (length (memory s)) + 1 < maxsize s")
    case True
    then have "(next_idx s + 1) mod maxsize s = int (length (memory s)) + 1" using eq by simp
    then show ?thesis using False ch by (simp add: insert_append[OF assms eq] chrono_def nat_add_distrib)
  next
    case ge: False
    then have "maxsize s = int (length (memory s)) + 1" using b by simp
    then have "(next_idx s + 1) mod maxsize s = 0" using eq by simp
    then show ?thesis using False ch by (simp add: insert_append[OF assms eq] chrono_def)
  qed
qed

lemma evicted_insert:
  assumes "ring_inv s"
  shows "snd (insert_exp s e) =
           Inr (if next_idx s < int (length (memory s)) then [hd (chrono s)] else [])"
proof (cases "next_idx s < int (length (memory s))")
  case True
  have "0 \<le> next_idx s" using assms by (simp add: ring_inv_def)
  then have il: "nat (next_idx s) < length (memory s)" using True by linarith
  then have "hd (chrono s) = memory s ! nat (next_idx s)"
    by (simp add: chrono_def hd_append hd_drop_conv_nth)
  then show ?thesis using True by (simp add: insert_overwrite[OF assms True])
next
  case False
  then have eq: "next_idx s = int (length (memory s))" using assms by (simp add: ring_inv_def)
  show ?thesis using False by (simp add: insert_append[OF assms eq])
qed

lemma chrono_evict:
  assumes "ring_inv s" "0 \<le> n"
  shows "chrono (fst (evict s n)) = drop (nat n) (chrono s)"
proof -
  have b: "0 \<le> next_idx s" "next_idx s \<le> int (length (memory s))"
    using assms(1) by (simp_all add: ring_inv_def)
  have lc: "length (chrono s) = length (memory s)" using b by (simp add: chrono_def)
  consider "int (length (memory s)) < n"
    | "n < int (length (memory s)) - next_idx s"
    | "n \<le> int (length (memory s))" "int (length (memory s)) - next_idx s \<le> n"
    by linarith
  then show ?thesis
  proof cases
    case 1
    then have "length (chrono s) \<le> nat n" using lc by linarith
    then have d: "drop (nat n) (chrono s) = []" by simp
    have "chrono (fst (evict s n)) = []" using 1 by (simp add: evict_all chrono_def)
    then show ?thesis using d by simp
  next
    case 2
    have "nat n \<le> length (memory s) - nat (next_idx s)" using 2 b assms(2) by linarith
    then show ?thesis using b assms(2)
      by (simp add: evict_forward[OF assms 2] chrono_def min_def add.commute)
  next
    case 3
    let ?i = "nat (next_idx s)" and ?m = "memory s"
    let ?k = "nat (n - (int (length ?m) - next_idx s))"
    let ?x = "drop ?k (take ?i ?m)"
    have st: "memory (fst (evict s n)) = ?x"
      "next_idx (fst (evict s n)) = next_idx s - (n - (int (length ?m) - next_idx s))"
      by (simp_all add: evict_wrap[OF assms(1) 3])
    have ni: "nat (next_idx s - (n - (int (length ?m) - next_idx s))) = ?i - ?k"
      using 3 b assms(2) by linarith
    have lx: "length ?x = ?i - ?k" using b by simp
    have "chrono (fst (evict s n)) = drop (?i - ?k) ?x @ take (?i - ?k) ?x"
      by (simp only: chrono_def st ni)
    also have "\<dots> = ?x"
    proof -
      have "drop (length ?x) ?x @ take (length ?x) ?x = ?x"
        by (simp only: drop_all take_all order_refl append_Nil)
      then show ?thesis by (simp only: lx)
    qed
    finally have lhs: "chrono (fst (evict s n)) = ?x" .
    have le: "length (drop ?i ?m) \<le> nat n" using 3 b assms(2) by simp
    have k: "nat n - length (drop ?i ?m) = ?k" using 3 b assms(2) by simp
    have "drop (nat n) (chrono s) = drop (nat n) (drop ?i ?m) @ drop (nat n - length (drop ?i ?m)) (take ?i ?m)"
      unfolding chrono_def by (rule drop_append)
    also have "\<dots> = ?x" using le by (simp only: k drop_all append_Nil)
    finally show ?thesis using lhs by simp
  qed
qed

lemma chrono_evict_subseq:
  assumes "ring_inv s"
  shows "subseq (chrono (fst (evict s n))) (chrono s)"
proof (cases "0 \<le> n")
  case True
  have "suffix (drop (nat n) (chrono s)) (chrono s)" by (rule suffix_drop)
  then show ?thesis using chrono_evict[OF assms True] by (simp add: suffix_imp_subseq)
next
  case False
  then have neg: "n < 0" by simp
  let ?i = "nat (next_idx s)" and ?m = "memory s"
  have b: "0 \<le> next_idx s" "next_idx s \<le> int (length ?m)"
    using assms by (simp_all add: ring_inv_def)
  show ?thesis
  proof (cases "next_idx s + n < 0 \<and> 0 < int (length ?m) + n")
    case True
    let ?h = "nat (int (length ?m) + next_idx s + n)"
    have hi: "?i \<le> ?h" "?h \<le> length ?m" using True neg b by linarith+
    have "chrono (fst (evict s n)) = drop ?h ?m @ take ?i ?m"
      using True hi by (simp add: evict_negative[OF assms neg] chrono_def min_def)
    moreover have "drop ?i ?m = take (?h - ?i) (drop ?i ?m) @ drop ?h ?m"
      using hi by (metis append_take_drop_id drop_drop le_add_diff_inverse2)
    then have "subseq (drop ?h ?m) (drop ?i ?m)"
      by (metis subseq_drop_many subseq_order.refl)
    then have "subseq (drop ?h ?m @ take ?i ?m) (drop ?i ?m @ take ?i ?m)"
      by (simp add: list_emb_append_mono)
    ultimately show ?thesis by (simp add: chrono_def)
  next
    case False
    then have "fst (evict s n) = s" by (auto simp add: evict_negative[OF assms neg])
    then show ?thesis by simp
  qed
qed

lemma inserted_snoc:
  "inserted (cs @ [c]) = inserted cs @ (case c of Insert e \<Rightarrow> [e] | _ \<Rightarrow> [])"
  by (induction cs rule: inserted.induct) (simp_all split: call.splits)

lemma chrono_step_subseq:
  assumes "ring_inv s" "subseq (chrono s) h"
  shows "subseq (chrono (step s c)) (h @ (case c of Insert e \<Rightarrow> [e] | _ \<Rightarrow> []))"
proof (cases c)
  case (Insert e)
  have "subseq (tl (chrono s)) (chrono s)" by (simp add: suffix_imp_subseq)
  then have "subseq (tl (chrono s)) h" using assms(2) subseq_order.trans by blast
  then show ?thesis using Insert assms by (simp add: chrono_insert list_emb_append_mono)
next
  case (Sample k d)
  then show ?thesis using assms by (simp add: sample_state)
next
  case (Evict n)
  have "subseq (chrono (fst (evict s n))) h"
    using chrono_evict_subseq[OF assms(1)] assms(2) subseq_order.trans by blast
  then show ?thesis using Evict by simp
qed

lemma chrono_subseq_inserted:
  assumes "0 < cap"
  shows "subseq (chrono (run (init cap sss) calls)) (inserted calls)"
proof (induction calls rule: rev_induct)
  case Nil
  then show ?case by (simp add: run_def init_def chrono_def)
next
  case (snoc c cs)
  have "ring_inv (run (init cap sss) cs)" using assms by (rule reachable_inv)
  then show ?case using snoc by (simp add: run_snoc inserted_snoc chrono_step_subseq)
qed

lemma sorted_wrt_subseq:
  assumes "subseq xs ys" "sorted_wrt P ys"
  shows "sorted_wrt P xs"
  using assms
proof (induction rule: list_emb.induct)
  case (list_emb_Nil ys)
  then show ?case by simp
next
  case (list_emb_Cons xs ys y)
  then show ?case by simp
next
  case (list_emb_Cons2 x y xs ys)
  have "set xs \<subseteq> set ys" using list_emb_Cons2(2) by (auto elim: list_emb_set)
  then show ?case using list_emb_Cons2 by auto
qed

section \<open>Inserting\<close>

lemma set_chrono: "set (chrono s) = set (memory s)"
  unfolding chrono_def by (metis append_take_drop_id set_append sup_commute)

lemma fill_cursor:
  assumes "0 < cap" and "\<forall>c\<in>set calls. \<not> is_evict c"
    and "int (length (memory (run (init cap sss) calls))) < cap"
  shows "next_idx (run (init cap sss) calls) = int (length (memory (run (init cap sss) calls)))"
  using assms(2,3)
proof (induction calls rule: rev_induct)
  case Nil
  then show ?case by (simp add: run_def init_def)
next
  case (snoc c cs)
  let ?s = "run (init cap sss) cs"
  have i: "ring_inv ?s" using assms(1) by (rule reachable_inv)
  have m: "maxsize ?s = cap" by (rule reachable_maxsize)
  have ne: "\<forall>c\<in>set cs. \<not> is_evict c" using snoc.prems(1) by simp
  show ?case
  proof (cases c)
    case (Insert e)
    show ?thesis
    proof (cases "next_idx ?s < int (length (memory ?s))")
      case True
      have "length (memory (run (init cap sss) (cs @ [c]))) = length (memory ?s)"
        using Insert by (simp add: run_snoc insert_overwrite[OF i True])
      then have "int (length (memory ?s)) < cap" using snoc.prems(2) by simp
      then have "next_idx ?s = int (length (memory ?s))" using snoc.IH ne by simp
      then show ?thesis using True by simp
    next
      case False
      then have eq: "next_idx ?s = int (length (memory ?s))" using i by (simp add: ring_inv_def)
      have st: "run (init cap sss) (cs @ [c]) =
          ?s\<lparr>memory := memory ?s @ [e], next_idx := (next_idx ?s + 1) mod maxsize ?s\<rparr>"
        using Insert by (simp add: run_snoc insert_append[OF i eq])
      have "int (length (memory ?s)) + 1 < cap" using snoc.prems(2) by (simp add: st)
      then have "(next_idx ?s + 1) mod maxsize ?s = int (length (memory ?s)) + 1"
        using eq m by simp
      then show ?thesis by (simp add: st)
    qed
  next
    case (Sample k d)
    then have "run (init cap sss) (cs @ [c]) = ?s" by (simp add: run_snoc sample_state)
    then show ?thesis using snoc.IH ne snoc.prems(2) by simp
  next
    case (Evict n)
    then show ?thesis using snoc.prems(1) by simp
  qed
qed

lemma after_partial_evict:
  "run (init 3 0) [Insert (1::int), Insert 2, Insert 3, Evict 1] =
     \<lparr>memory = [2, 3], maxsize = 3, sampling_start_size = 0, next_idx = 0\<rparr>"
  by (simp add: exec_defs)

text \<open>
  Where each branch of evict leaves the cursor, for a count that is not negative:
  emptying the buffer and the wrap-around branch leave it at the length of the list,
  the forward branch leaves it inside the list.
\<close>

lemma evict_all_cursor:
  assumes "int (length (memory s)) < n"
  shows "next_idx (fst (evict s n)) = int (length (memory (fst (evict s n))))"
  using assms by (simp add: evict_all)

lemma evict_wrap_cursor:
  assumes "ring_inv s" "n \<le> int (length (memory s))" "int (length (memory s)) - next_idx s \<le> n"
  shows "next_idx (fst (evict s n)) = int (length (memory (fst (evict s n))))"
proof -
  have b: "0 \<le> next_idx s" "next_idx s \<le> int (length (memory s))"
    using assms(1) by (simp_all add: ring_inv_def)
  show ?thesis using b assms(2,3) by (simp add: evict_wrap[OF assms] min_def) linarith
qed

lemma evict_forward_cursor:
  assumes "ring_inv s" "0 \<le> n" "n < int (length (memory s)) - next_idx s"
  shows "next_idx (fst (evict s n)) < int (length (memory (fst (evict s n))))"
proof -
  have b: "0 \<le> next_idx s" "next_idx s \<le> int (length (memory s))"
    using assms(1) by (simp_all add: ring_inv_def)
  show ?thesis using b assms(2,3) by (simp add: evict_forward[OF assms] min_def)
qed

text \<open>
  Without evict the buffer fills by appending: below capacity, insert appends the
  record, returns the empty list and leaves the cursor at the new length, taken
  modulo the capacity.
\<close>

lemma insert_while_filling:
  assumes "0 < cap" and "s = run (init cap sss) calls"
    and "int (length (memory s)) < cap"
    and "\<forall>c\<in>set calls. \<not> is_evict c"
  shows "insert_exp s e =
           (s\<lparr>memory := memory s @ [e],
              next_idx := (int (length (memory s)) + 1) mod cap\<rparr>,
            Inr [])"
proof -
  have i: "ring_inv s" using assms(1,2) by (simp add: reachable_inv)
  have m: "maxsize s = cap" using assms(2) by (simp add: reachable_maxsize)
  have eq: "next_idx s = int (length (memory s))"
    using fill_cursor[OF assms(1) assms(4) assms(3)[unfolded assms(2)]] assms(2) by simp
  show ?thesis using insert_append[OF i eq, of e] eq m by simp
qed

text \<open>
  C1. The claim: on a reachable buffer below capacity, also one reached through
  evict, insert appends the record and returns the empty list. The code does not do
  so after an evict that took the forward branch (lines 51 to 53), which leaves the
  cursor inside the shortened list. Capacity 3, inserts 1, 2, 3, then \<open>evict(1)\<close>:
  the buffer holds \<open>[2, 3]\<close> with the cursor at 0, below capacity; \<open>insert(4)\<close> then
  overwrites the slot at the cursor and returns its record \<open>[2]\<close>.
\<close>

theorem C1_failing_input:
  "run (init 3 0) [Insert (1::int), Insert 2, Insert 3, Evict 1] =
     \<lparr>memory = [2, 3], maxsize = 3, sampling_start_size = 0, next_idx = 0\<rparr> \<and>
   insert_exp (run (init 3 0) [Insert (1::int), Insert 2, Insert 3, Evict 1]) 4 =
     (\<lparr>memory = [4, 3], maxsize = 3, sampling_start_size = 0, next_idx = 1\<rparr>, Inr [2])"
  by (simp add: after_partial_evict) (simp add: exec_defs)

text \<open>
  C2. Let every inserted record carry a stamp that grows strictly from one insert
  to the next (its time of insertion). On a reachable buffer, insert returns
  normally a list of at most one record; the buffer afterwards holds the new record
  and what it held before, less the returned record; and a returned record was held
  before and no record then held has a smaller stamp: it is the least recently
  inserted record still present.
\<close>

theorem C2_insert_displaces_oldest:
  fixes stamp :: "'a \<Rightarrow> 'b::linorder"
  assumes "0 < cap" and "s = run (init cap sss) calls"
    and "sorted_wrt (<) (map stamp (inserted calls))"
  shows "\<exists>s' ev. insert_exp s x = (s', Inr ev) \<and> length ev \<le> 1 \<and>
           mset (memory s') + mset ev = add_mset x (mset (memory s)) \<and>
           (\<forall>e\<in>set ev. e \<in> set (memory s) \<and> (\<forall>y\<in>set (memory s). stamp e \<le> stamp y))"
proof -
  have i: "ring_inv s" using assms(1,2) by (simp add: reachable_inv)
  have "subseq (chrono s) (inserted calls)"
    using assms(1,2) by (simp add: chrono_subseq_inserted)
  moreover have "sorted_wrt (\<lambda>a b. stamp a < stamp b) (inserted calls)"
    using assms(3) by (simp add: sorted_wrt_map)
  ultimately have so: "sorted_wrt (\<lambda>a b. stamp a < stamp b) (chrono s)"
    by (rule sorted_wrt_subseq)
  show ?thesis
  proof (cases "next_idx s < int (length (memory s))")
    case True
    let ?i = "nat (next_idx s)"
    have "0 \<le> next_idx s" using i by (simp add: ring_inv_def)
    then have il: "?i < length (memory s)" using True by linarith
    have ch: "chrono s = (memory s ! ?i) # drop (Suc ?i) (memory s) @ take ?i (memory s)"
      unfolding chrono_def using il by (simp add: Cons_nth_drop_Suc)
    have least: "\<forall>y\<in>set (memory s). stamp (memory s ! ?i) \<le> stamp y"
    proof
      fix y assume "y \<in> set (memory s)"
      then have "y \<in> set (chrono s)" by (simp add: set_chrono)
      then have "y = memory s ! ?i \<or> y \<in> set (drop (Suc ?i) (memory s) @ take ?i (memory s))"
        by (subst (asm) ch) simp
      moreover have "\<forall>z\<in>set (drop (Suc ?i) (memory s) @ take ?i (memory s)).
          stamp (memory s ! ?i) < stamp z"
        using so by (subst (asm) ch) simp
      ultimately show "stamp (memory s ! ?i) \<le> stamp y"
        by (metis order_refl less_imp_le)
    qed
    have ms: "mset ((memory s)[?i := x]) + {#memory s ! ?i#} = add_mset x (mset (memory s))"
      using il by (simp add: mset_update)
    show ?thesis using insert_overwrite[OF i True, of x] il least ms by simp
  next
    case False
    then have eq: "next_idx s = int (length (memory s))" using i by (simp add: ring_inv_def)
    show ?thesis using insert_append[OF i eq, of x] by simp
  qed
qed

theorem C2_insert_displaces_oldest_witness:
  "\<exists>s' ev. insert_exp (run (init 3 0) [Insert (1::int), Insert 2, Insert 3, Insert 4]) 5 =
       (s', Inr ev) \<and> length ev \<le> 1 \<and>
     mset (memory s') + mset ev = add_mset 5 (mset [4, 2, 3]) \<and>
     (\<forall>e\<in>set ev. e \<in> set [4, 2, 3] \<and> (\<forall>y\<in>set [4, 2, 3]. e \<le> y))"
  using C2_insert_displaces_oldest[of 3 "run (init 3 0) [Insert (1::int), Insert 2, Insert 3,
      Insert 4]" 0 "[Insert (1::int), Insert 2, Insert 3, Insert 4]" "\<lambda>r. r" 5]
  by (simp add: four_inserts)

end
